theory Spec2Isabelle
  imports Complex_Main "HOL-Library.Multiset" "HOL-Library.Monad_Syntax"
begin

section \<open>Data model\<close>

text \<open>
  Modelled from the spec: the interface \<open>Guide\<close> is declared in \<open>src/types\<close>, which is
  not part of the sources at hand. The record has the fields that the two source files
  read from a guide (\<open>name\<close>, \<open>department\<close>, \<open>supervisor\<close>, \<open>nps\<close>, \<open>nrpc\<close> and
  \<open>totalTickets\<close>); \<open>totalTickets\<close> is the "weight" of the spec's Candidate, the other
  fields are its opaque display attributes.

  A JavaScript \<open>number\<close> is modelled as a real: the sums, the product with the random
  draw and the subtractions of the scan are exact, and \<open>NaN\<close> and the infinities of IEEE
  doubles are outside the model. Where a property depends on the value of a sum or of a
  running value, the section on double arithmetic gives the same operations with the
  rounding made explicit and the conditions under which both agree.
\<close>

record Guide =
  name :: string
  department :: string
  supervisor :: string
  nps :: real
  nrpc :: real
  totalTickets :: real

text \<open>
  An array slot holds a guide object or \<open>undefined\<close> (\<open>None\<close>). Arrays live in a store:
  a reference is the position of the array in the store, and an array literal or a
  spread \<open>[...xs]\<close> allocates a new array at the end of the store. Two variables alias
  exactly when they hold the same reference.
\<close>

type_synonym jsarray = "Guide option list"
type_synonym ref = nat
type_synonym heap = "jsarray list"

definition alloc :: "heap \<Rightarrow> jsarray \<Rightarrow> heap \<times> ref" where
  "alloc h xs = (h @ [xs], length h)"

section \<open>The operations of one round\<close>

text \<open>
  \<open>guide.totalTickets\<close>: reading a property of \<open>undefined\<close> throws a TypeError, which is
  the value \<open>None\<close> of every result type below.
\<close>

definition tickets :: "Guide option \<Rightarrow> real option" where
  "tickets guide = (case guide of None \<Rightarrow> None | Some g \<Rightarrow> Some (totalTickets g))"

text \<open>\<open>xs.reduce((sum, guide) => sum + guide.totalTickets, sum0)\<close>, from left to right.\<close>

fun reduce_tickets :: "real \<Rightarrow> jsarray \<Rightarrow> real option" where
  "reduce_tickets sum0 [] = Some sum0"
| "reduce_tickets sum0 (guide # rest) =
     (case tickets guide of
        None \<Rightarrow> None
      | Some t \<Rightarrow> reduce_tickets (sum0 + t) rest)"

text \<open>
  The inner loop, entered at index \<open>j\<close> with the running value \<open>random\<close>. It returns the
  final value of \<open>selectedIndex\<close>: the index of the \<open>break\<close>, or the initial \<open>0\<close> when
  the loop runs off the end of the array.
\<close>

function scan :: "jsarray \<Rightarrow> nat \<Rightarrow> real \<Rightarrow> nat option" where
  "scan availableGuides j random =
     (if j < length availableGuides then
        (case tickets (availableGuides ! j) of
           None \<Rightarrow> None
         | Some t \<Rightarrow>
             (if random - t \<le> 0 then Some j
              else scan availableGuides (Suc j) (random - t)))
      else Some 0)"
  by pat_completeness auto
termination
  by (relation "measure (\<lambda>(a, j, r). length a - j)") auto

declare scan.simps [simp del]

text \<open>
  \<open>xs.splice(start, 1)\<close>: the removed elements (none when \<open>start\<close> is not an index of
  \<open>xs\<close>) and the array that is left. \<open>first\<close> is the \<open>[0]\<close> applied to the removed
  elements, \<open>undefined\<close> on the empty array.
\<close>

definition splice1 :: "jsarray \<Rightarrow> nat \<Rightarrow> jsarray \<times> jsarray" where
  "splice1 xs start = (take 1 (drop start xs), take start xs @ drop (Suc start) xs)"

definition first :: "jsarray \<Rightarrow> Guide option" where
  "first xs = (case xs of [] \<Rightarrow> None | x # _ \<Rightarrow> x)"

section \<open>\<open>weightedRandomSelection\<close> (utils/lottery.ts)\<close>

text \<open>
  The body of the outer loop in round \<open>i\<close>. \<open>rnd i\<close> is the value that the call of
  \<open>Math.random()\<close> in round \<open>i\<close> returns (each round calls it once). \<open>splice\<close>
  updates the array behind \<open>availableGuides\<close> in place, \<open>push\<close> the array behind
  \<open>winners\<close>.
\<close>

definition draw_round :: "(nat \<Rightarrow> real) \<Rightarrow> ref \<Rightarrow> ref \<Rightarrow> nat \<Rightarrow> heap \<Rightarrow> heap option" where
  "draw_round rnd availableGuides winners i h =
     do {
       totalWeight \<leftarrow> reduce_tickets 0 (h ! availableGuides);
       selectedIndex \<leftarrow> scan (h ! availableGuides) 0 (rnd i * totalWeight);
       let (removed, rest) = splice1 (h ! availableGuides) selectedIndex;
       let h1 = h[availableGuides := rest];
       let winner = first removed;
       Some (h1[winners := h1 ! winners @ [winner]])
     }"

text \<open>
  The outer loop, entered at round \<open>i\<close>. \<open>cnt\<close> is the parameter \<open>count\<close>, an integer
  that may be negative.
\<close>

function select_loop :: "(nat \<Rightarrow> real) \<Rightarrow> int \<Rightarrow> ref \<Rightarrow> ref \<Rightarrow> nat \<Rightarrow> heap \<Rightarrow> heap option" where
  "select_loop rnd cnt availableGuides winners i h =
     (if int i < cnt \<and> length (h ! availableGuides) > 0 then
        (case draw_round rnd availableGuides winners i h of
           None \<Rightarrow> None
         | Some h' \<Rightarrow> select_loop rnd cnt availableGuides winners (Suc i) h')
      else Some h)"
  by pat_completeness auto
termination
  by (relation "measure (\<lambda>(rnd, cnt, a, w, i, h). nat (cnt - int i))") auto

declare select_loop.simps [simp del]

text \<open>
  The function returns the reference of the winner array together with the store it
  leaves behind; \<open>None\<close> is a thrown TypeError.
\<close>

definition weightedRandomSelection ::
    "heap \<Rightarrow> ref \<Rightarrow> int \<Rightarrow> (nat \<Rightarrow> real) \<Rightarrow> (heap \<times> ref) option" where
  "weightedRandomSelection h guides cnt rnd =
     (let (h1, availableGuides) = alloc h (h ! guides);
          (h2, winners) = alloc h1 []
      in case select_loop rnd cnt availableGuides winners 0 h2 of
           None \<Rightarrow> None
         | Some h3 \<Rightarrow> Some (h3, winners))"

section \<open>The selection loop of \<open>NameScrolling\<close> (components/NameScrolling.tsx)\<close>

text \<open>
  Lines 44 to 63 of the effect: it allocates \<open>winners\<close> first and the copy of \<open>guides\<close>
  second, then runs its own copy of the loop, with \<open>winnerCount\<close> for the count. (The
  effect reaches these lines only when \<open>isScrolling\<close> is set and \<open>guides\<close> is not empty;
  what it does with the winners afterwards is display.)
\<close>

definition ns_round :: "(nat \<Rightarrow> real) \<Rightarrow> ref \<Rightarrow> ref \<Rightarrow> nat \<Rightarrow> heap \<Rightarrow> heap option" where
  "ns_round rnd winners availableGuides i h =
     do {
       totalWeight \<leftarrow> reduce_tickets 0 (h ! availableGuides);
       selectedIndex \<leftarrow> scan (h ! availableGuides) 0 (rnd i * totalWeight);
       let (removed, rest) = splice1 (h ! availableGuides) selectedIndex;
       let h1 = h[availableGuides := rest];
       let winner = first removed;
       Some (h1[winners := h1 ! winners @ [winner]])
     }"

function ns_loop :: "(nat \<Rightarrow> real) \<Rightarrow> int \<Rightarrow> ref \<Rightarrow> ref \<Rightarrow> nat \<Rightarrow> heap \<Rightarrow> heap option" where
  "ns_loop rnd winnerCount winners availableGuides i h =
     (if int i < winnerCount \<and> length (h ! availableGuides) > 0 then
        (case ns_round rnd winners availableGuides i h of
           None \<Rightarrow> None
         | Some h' \<Rightarrow> ns_loop rnd winnerCount winners availableGuides (Suc i) h')
      else Some h)"
  by pat_completeness auto
termination
  by (relation "measure (\<lambda>(rnd, cnt, w, a, i, h). nat (cnt - int i))") auto

declare ns_loop.simps [simp del]

definition nameScrolling_winners ::
    "heap \<Rightarrow> ref \<Rightarrow> int \<Rightarrow> (nat \<Rightarrow> real) \<Rightarrow> (heap \<times> ref) option" where
  "nameScrolling_winners h guides winnerCount rnd =
     (let (h1, winners) = alloc h [];
          (h2, availableGuides) = alloc h1 (h1 ! guides)
      in case ns_loop rnd winnerCount winners availableGuides 0 h2 of
           None \<Rightarrow> None
         | Some h3 \<Rightarrow> Some (h3, winners))"

section \<open>Observations and the partition of the draw range\<close>

text \<open>
  What the caller reads from a result: the elements of the returned winner array.
\<close>

definition winner_list :: "(heap \<times> ref) option \<Rightarrow> jsarray option" where
  "winner_list res = (case res of None \<Rightarrow> None | Some (h, winners) \<Rightarrow> Some (h ! winners))"

text \<open>
  The partition formulation of a round, from the description of the algorithm: the range
  \<open>[0, totalWeight)\<close> is cut into contiguous sub-intervals, one per candidate in pool
  order, the \<open>i\<close>-th one from the sum of the first \<open>i\<close> weights to the sum of the
  first \<open>i + 1\<close> weights. A boundary point belongs to the sub-interval below it, and
  \<open>0\<close> to the first one.
\<close>

definition prefix_weight :: "Guide list \<Rightarrow> nat \<Rightarrow> real" where
  "prefix_weight gs k = sum_list (map totalTickets (take k gs))"

definition in_subinterval :: "Guide list \<Rightarrow> nat \<Rightarrow> real \<Rightarrow> bool" where
  "in_subinterval gs i r \<longleftrightarrow>
     i < length gs \<and> (if i = 0 then 0 \<le> r else prefix_weight gs i < r) \<and> r \<le> prefix_weight gs (Suc i)"

section \<open>Double arithmetic\<close>

text \<open>
  The finite values of an IEEE 754 binary64 number are the reals \<open>m * 2^e\<close> with an
  integer \<open>m\<close> of magnitude below \<open>2^53\<close> and \<open>-1074 \<le> e \<le> 971\<close>.
\<close>

definition double_repr :: "real \<Rightarrow> bool" where
  "double_repr x \<longleftrightarrow>
     (\<exists>m e :: int. \<bar>m\<bar> < 2 ^ 53 \<and> - 1074 \<le> e \<and> e \<le> 971 \<and> x = of_int m * 2 powi e)"

text \<open>
  The sum of line 8 and the scan of lines 12 to 18 as the code computes them: \<open>fl\<close> is
  the rounding that an addition or subtraction of doubles applies to its exact result.
  Of \<open>fl\<close> the properties below use only that a representable result is returned as it
  is and that the rounded value of a result \<open>\<le> 0\<close> is \<open>\<le> 0\<close>. With \<open>fl\<close> the identity
  these are \<open>reduce_tickets\<close> and \<open>scan\<close>.
\<close>

fun reduce_rounded :: "(real \<Rightarrow> real) \<Rightarrow> real \<Rightarrow> jsarray \<Rightarrow> real option" where
  "reduce_rounded fl sum0 [] = Some sum0"
| "reduce_rounded fl sum0 (guide # rest) =
     (case tickets guide of
        None \<Rightarrow> None
      | Some t \<Rightarrow> reduce_rounded fl (fl (sum0 + t)) rest)"

function scan_rounded :: "(real \<Rightarrow> real) \<Rightarrow> jsarray \<Rightarrow> nat \<Rightarrow> real \<Rightarrow> nat option" where
  "scan_rounded fl availableGuides j random =
     (if j < length availableGuides then
        (case tickets (availableGuides ! j) of
           None \<Rightarrow> None
         | Some t \<Rightarrow>
             (if fl (random - t) \<le> 0 then Some j
              else scan_rounded fl availableGuides (Suc j) (fl (random - t))))
      else Some 0)"
  by pat_completeness auto
termination
  by (relation "measure (\<lambda>(fl, a, j, r). length a - j)") auto

declare scan_rounded.simps [simp del]

section \<open>Sample candidates\<close>

definition candidate :: "string \<Rightarrow> real \<Rightarrow> Guide" where
  "candidate nm t =
     \<lparr>name = nm, department = [], supervisor = [], nps = 0, nrpc = 0, totalTickets = t\<rparr>"

definition guideA :: Guide where "guideA = candidate ''A'' 1"

definition guideB :: Guide where "guideB = candidate ''B'' 1"

definition guideC :: Guide where "guideC = candidate ''C'' 2"

definition guideZ :: Guide where "guideZ = candidate ''Z'' 0"

section \<open>The scan\<close>

lemma tickets_Some [simp]: "tickets (Some g) = Some (totalTickets g)"
  by (simp add: tickets_def)

lemma tickets_None [simp]: "tickets None = None"
  by (simp add: tickets_def)

lemma reduce_tickets_Some: "reduce_tickets s (map Some gs) = Some (s + sum_list (map totalTickets gs))"
  by (induction gs arbitrary: s) (simp_all add: add.assoc)

lemma prefix_weight_0 [simp]: "prefix_weight gs 0 = 0"
  by (simp add: prefix_weight_def)

lemma prefix_weight_Suc: "k < length gs \<Longrightarrow> prefix_weight gs (Suc k) = prefix_weight gs k + totalTickets (gs ! k)"
  by (simp add: prefix_weight_def take_Suc_conv_app_nth)

lemma prefix_weight_all: "length gs \<le> k \<Longrightarrow> prefix_weight gs k = sum_list (map totalTickets gs)"
  by (simp add: prefix_weight_def)

lemma scan_bound: "a \<noteq> [] \<Longrightarrow> scan a j r = Some k \<Longrightarrow> k < length a"
proof (induction a j r rule: scan.induct)
  case (1 a j r)
  show ?case
  proof (cases "j < length a")
    case True
    with "1.prems" "1.IH" show ?thesis
      by (subst (asm) scan.simps) (auto split: option.splits if_splits)
  next
    case False
    with "1.prems" show ?thesis
      by (subst (asm) scan.simps) auto
  qed
qed

lemma scan_total: "\<exists>k. scan (map Some gs) j r = Some k"
proof (induction "map Some gs" j r rule: scan.induct)
  case (1 j r)
  then show ?case
    by (subst scan.simps) auto
qed

lemma scan_break:
  assumes "j \<le> k" "k < length gs" "r \<le> prefix_weight gs (Suc k)"
    and "\<forall>m. j \<le> m \<and> m < k \<longrightarrow> prefix_weight gs (Suc m) < r"
  shows "scan (map Some gs) j (r - prefix_weight gs j) = Some k"
  using assms
proof (induction "k - j" arbitrary: j)
  case 0
  then have "j = k" by simp
  with 0 show ?case
    by (subst scan.simps) (simp add: prefix_weight_Suc)
next
  case (Suc d)
  then have lt: "j < k" by simp
  with Suc.prems have gt: "prefix_weight gs (Suc j) < r" by simp
  have rec: "scan (map Some gs) (Suc j) (r - prefix_weight gs (Suc j)) = Some k"
    using Suc.hyps(1) [of "Suc j"] Suc.hyps(2) Suc.prems lt by simp
  have jl: "j < length gs" using lt Suc.prems by simp
  show ?case
    using gt rec jl by (subst scan.simps) (simp add: prefix_weight_Suc algebra_simps)
qed

lemma scan_default:
  assumes "j \<le> length gs" "\<forall>m. j \<le> m \<and> m < length gs \<longrightarrow> prefix_weight gs (Suc m) < r"
  shows "scan (map Some gs) j (r - prefix_weight gs j) = Some 0"
  using assms
proof (induction "length gs - j" arbitrary: j)
  case 0
  then show ?case by (subst scan.simps) simp
next
  case (Suc d)
  then have jl: "j < length gs" by simp
  with Suc.prems have gt: "prefix_weight gs (Suc j) < r" by simp
  have rec: "scan (map Some gs) (Suc j) (r - prefix_weight gs (Suc j)) = Some 0"
    using Suc.hyps(1) [of "Suc j"] Suc.hyps(2) Suc.prems jl by simp
  show ?case
    using gt rec jl by (subst scan.simps) (simp add: prefix_weight_Suc algebra_simps)
qed

lemma prefix_weight_mono:
  assumes "\<forall>g \<in> set gs. 0 \<le> totalTickets g" "i \<le> k"
  shows "prefix_weight gs i \<le> prefix_weight gs k"
proof -
  have nn: "0 \<le> sum_list (map totalTickets (take (k - i) (drop i gs)))"
    using assms(1) by (intro sum_list_nonneg) (auto dest: in_set_takeD in_set_dropD)
  have "take k gs = take i gs @ take (k - i) (drop i gs)"
    using assms(2) by (metis le_add_diff_inverse take_add)
  then show ?thesis
    using nn by (simp add: prefix_weight_def)
qed

lemma scan_least:
  assumes "gs \<noteq> []" "r < sum_list (map totalTickets gs)"
  shows "\<exists>k < length gs. scan (map Some gs) 0 r = Some k \<and> r \<le> prefix_weight gs (Suc k)
           \<and> (\<forall>m < k. prefix_weight gs (Suc m) < r)"
proof -
  define Q where "Q k \<longleftrightarrow> r \<le> prefix_weight gs (Suc k)" for k
  have "\<exists>k. Q k"
    using assms by (auto simp: Q_def prefix_weight_all intro!: exI [of _ "length gs"])
  then obtain k where k: "Q k" "\<forall>m < k. \<not> Q m"
    using exists_least_iff [of Q] by auto
  have kl: "k < length gs"
  proof (rule ccontr)
    assume "\<not> k < length gs"
    then have ge: "length gs \<le> k" by simp
    with assms(1) have "length gs - 1 < k"
      by (cases gs) auto
    with k(2) have "\<not> Q (length gs - 1)" by blast
    with assms show False
      by (cases gs) (auto simp: Q_def prefix_weight_all)
  qed
  have "scan (map Some gs) 0 (r - prefix_weight gs 0) = Some k"
    using k kl by (intro scan_break) (auto simp: Q_def not_le)
  then show ?thesis
    using k kl by (auto simp: Q_def not_le)
qed

lemma scan_subinterval:
  assumes nonneg: "\<forall>g \<in> set gs. 0 \<le> totalTickets g"
    and r: "0 \<le> r" "r < sum_list (map totalTickets gs)"
  shows "scan (map Some gs) 0 r = Some i \<longleftrightarrow> in_subinterval gs i r"
proof -
  have ne: "gs \<noteq> []" using r by auto
  obtain k where k: "k < length gs" "scan (map Some gs) 0 r = Some k"
      "r \<le> prefix_weight gs (Suc k)" "\<forall>m < k. prefix_weight gs (Suc m) < r"
    using scan_least [OF ne r(2)] by blast
  have sub_k: "in_subinterval gs k r"
  proof (cases k)
    case 0
    with k r show ?thesis by (simp add: in_subinterval_def)
  next
    case (Suc k')
    with k(4) have "prefix_weight gs k < r" by simp
    with k Suc show ?thesis by (simp add: in_subinterval_def)
  qed
  have uniq: "i = k" if i: "in_subinterval gs i r"
  proof (rule ccontr)
    assume "i \<noteq> k"
    then consider "i < k" | "k < i" by linarith
    then show False
    proof cases
      case 1
      with k(4) have "prefix_weight gs (Suc i) < r" by simp
      with i show False by (simp add: in_subinterval_def)
    next
      case 2
      then have "prefix_weight gs (Suc k) \<le> prefix_weight gs i"
        using prefix_weight_mono [OF nonneg, of "Suc k" i] by simp
      moreover from 2 i have "prefix_weight gs i < r"
        by (simp add: in_subinterval_def)
      ultimately show False using k(3) by simp
    qed
  qed
  show ?thesis
    using k(2) sub_k uniq by auto
qed

lemma scan_positive_weight:
  assumes "0 \<le> r" "r < sum_list (map totalTickets gs)"
    and "0 < r \<or> 0 < totalTickets (gs ! 0)"
  shows "\<exists>i < length gs. scan (map Some gs) 0 r = Some i \<and> 0 < totalTickets (gs ! i)"
proof -
  have ne: "gs \<noteq> []" using assms(1,2) by auto
  obtain k where k: "k < length gs" "scan (map Some gs) 0 r = Some k"
      "r \<le> prefix_weight gs (Suc k)" "\<forall>m < k. prefix_weight gs (Suc m) < r"
    using scan_least [OF ne assms(2)] by blast
  have "0 < totalTickets (gs ! k)"
  proof (cases k)
    case 0
    with k(1,3) have "r \<le> totalTickets (gs ! 0)"
      by (simp add: prefix_weight_Suc)
    with assms(3) 0 show ?thesis by auto
  next
    case (Suc k')
    with k(4) have "prefix_weight gs k < r" by simp
    with k(1,3) show ?thesis
      by (simp add: prefix_weight_Suc)
  qed
  with k show ?thesis by blast
qed

lemma scan_zero_pool:
  assumes "gs \<noteq> []" "\<forall>g \<in> set gs. totalTickets g = 0"
  shows "scan (map Some gs) 0 (u * sum_list (map totalTickets gs)) = Some 0"
proof -
  have "sum_list (map totalTickets gs) = 0"
    using assms(2) by (induction gs) auto
  moreover have "totalTickets (hd gs) = 0"
    using assms by (cases gs) auto
  ultimately show ?thesis
    using assms(1) by (subst scan.simps) (cases gs, auto)
qed

section \<open>The scan in double arithmetic\<close>

text \<open>
  With weights that are natural numbers and a total of at most \<open>2^53\<close> every partial sum
  is representable, so the sum is exact. If moreover the draw \<open>r\<close> is a double below
  \<open>2^53\<close>, every positive running value of the scan is \<open>r\<close> minus an integer and at most
  \<open>r\<close>, hence representable: the subtraction returns it unrounded, and a difference
  \<open>\<le> 0\<close> stays \<open>\<le> 0\<close> after rounding. The scan in doubles then takes the branches of
  the exact scan. (With weights that are not integers the running values need not be
  representable and the two can part: with the doubles nearest to 0, 0.4, 0.8, 0.3 and
  the draw 1.5 the exact scan stops at index 3, while in doubles the last running value
  is a positive rounding residue and the loop runs off the end.)
\<close>

lemma reduce_rounded_id: "reduce_rounded (\<lambda>x. x) s xs = reduce_tickets s xs"
  by (induction xs arbitrary: s) (simp_all split: option.splits)

lemma scan_rounded_id: "scan_rounded (\<lambda>x. x) a j r = scan a j r"
proof (induction a j r rule: scan.induct)
  case (1 a j r)
  show ?case
  proof (cases "j < length a")
    case False
    then show ?thesis
      by (subst scan_rounded.simps, subst scan.simps) simp
  next
    case True
    show ?thesis
    proof (cases "tickets (a ! j)")
      case None
      with True show ?thesis
        by (subst scan_rounded.simps, subst scan.simps) simp
    next
      case (Some t)
      show ?thesis
      proof (cases "r - t \<le> 0")
        case stop: True
        with True Some show ?thesis
          by (subst scan_rounded.simps, subst scan.simps) simp
      next
        case go: False
        have "scan_rounded (\<lambda>x. x) a j r = scan_rounded (\<lambda>x. x) a (Suc j) (r - t)"
          using True Some go by (subst scan_rounded.simps) simp
        moreover have "scan a j r = scan a (Suc j) (r - t)"
          using True Some go by (subst scan.simps) simp
        ultimately show ?thesis
          using "1.IH" [OF True Some] go by simp
      qed
    qed
  qed
qed

lemma double_repr_int:
  assumes "0 \<le> n" "n \<le> 2 ^ 53"
  shows "double_repr (of_int n)"
proof (cases "n < 2 ^ 53")
  case True
  with assms(1) show ?thesis
    unfolding double_repr_def by (intro exI [of _ n] exI [of _ 0]) simp
next
  case False
  with assms(2) have "n = 2 ^ 53" by simp
  then show ?thesis
    unfolding double_repr_def by (intro exI [of _ 1] exI [of _ 53]) simp
qed

lemma double_repr_running:
  assumes "double_repr r" "0 < v" "v \<le> r" "r < 2 ^ 53" "r - v \<in> \<int>"
  shows "double_repr v"
proof -
  obtain m e :: int where me: "\<bar>m\<bar> < 2 ^ 53" "- 1074 \<le> e" "e \<le> 971" "r = of_int m * 2 powi e"
    using assms(1) unfolding double_repr_def by blast
  obtain k :: int where k: "r - v = of_int k"
    using assms(5) by (auto elim: Ints_cases)
  show ?thesis
  proof (cases "0 \<le> e")
    case True
    then have "r = of_int (m * 2 ^ nat e)"
      using me(4) by (simp add: power_int_def)
    then have "v = of_int (m * 2 ^ nat e - k)"
      using k by simp
    then obtain n :: int where n: "v = of_int n" by blast
    have "real_of_int n < real_of_int (2 ^ 53)"
      using assms(3,4) n by simp
    then have "n < 2 ^ 53"
      by (simp only: of_int_less_iff)
    moreover have "0 < n"
      using assms(2) n by simp
    ultimately have "0 \<le> n" "n \<le> 2 ^ 53"
      by simp_all
    then show ?thesis
      unfolding n by (rule double_repr_int)
  next
    case False
    define d where "d = nat (- e)"
    have pw: "(2::real) powi e = 1 / 2 ^ d"
      using False by (simp add: power_int_def d_def field_simps)
    define m' where "m' = m - k * 2 ^ d"
    have v: "v = of_int m' * 2 powi e"
      using k me(4) by (simp add: m'_def pw field_simps)
    have pos: "(0::real) < 2 powi e" by simp
    have "0 < real_of_int m'"
      using assms(2) pos unfolding v by (simp add: zero_less_mult_iff)
    moreover have "real_of_int m' \<le> real_of_int m"
      using assms(3) pos unfolding v me(4) by simp
    ultimately have "\<bar>m'\<bar> < 2 ^ 53"
      using me(1) by simp
    with me(2,3) v show ?thesis
      unfolding double_repr_def by blast
  qed
qed

lemma double_repr_nat:
  assumes "x \<in> \<nat>" "x \<le> 2 ^ 53"
  shows "double_repr x"
proof -
  obtain n :: nat where n: "x = of_nat n"
    using assms(1) by (auto elim: Nats_cases)
  have "real_of_int (int n) \<le> real_of_int (2 ^ 53)"
    using assms(2) n by simp
  then have "int n \<le> 2 ^ 53"
    by (simp only: of_int_le_iff)
  then have "double_repr (of_int (int n))"
    by (intro double_repr_int) simp_all
  then show ?thesis
    using n by simp
qed

lemma sum_list_tickets_Nats:
  "\<forall>g \<in> set gs. totalTickets g \<in> \<nat> \<Longrightarrow> sum_list (map totalTickets gs) \<in> \<nat>"
  by (induction gs) (auto intro: Nats_add)

lemma Nats_nonneg: "(x::real) \<in> \<nat> \<Longrightarrow> 0 \<le> x"
  by (auto elim: Nats_cases)

lemma reduce_rounded_exact:
  assumes fl_exact: "\<forall>x. double_repr x \<longrightarrow> fl x = x"
    and "\<forall>g \<in> set gs. totalTickets g \<in> \<nat>" "s \<in> \<nat>"
    and "s + sum_list (map totalTickets gs) \<le> 2 ^ 53"
  shows "reduce_rounded fl s (map Some gs) = reduce_tickets s (map Some gs)"
  using assms(2-)
proof (induction gs arbitrary: s)
  case Nil
  then show ?case by simp
next
  case (Cons g gs)
  have rest: "0 \<le> sum_list (map totalTickets gs)"
    using Cons.prems(1) by (intro Nats_nonneg sum_list_tickets_Nats) simp
  have nat: "s + totalTickets g \<in> \<nat>"
    using Cons.prems(1,2) by simp
  moreover have "s + totalTickets g \<le> 2 ^ 53"
    using Cons.prems(3) rest by simp
  ultimately have "fl (s + totalTickets g) = s + totalTickets g"
    using fl_exact double_repr_nat by blast
  moreover have "reduce_rounded fl (s + totalTickets g) (map Some gs) =
      reduce_tickets (s + totalTickets g) (map Some gs)"
    using Cons.prems(1,3) nat by (intro Cons.IH) (simp_all add: add.assoc)
  ultimately show ?case by simp
qed

lemma scan_rounded_exact:
  assumes fl_sign: "\<forall>x. x \<le> 0 \<longrightarrow> fl x \<le> 0"
    and fl_exact: "\<forall>x. double_repr x \<longrightarrow> fl x = x"
    and ints: "\<forall>g \<in> set gs. totalTickets g \<in> \<nat>"
    and r: "double_repr r" "r < 2 ^ 53"
    and v: "v \<le> r" "r - v \<in> \<int>"
  shows "scan_rounded fl (map Some gs) j v = scan (map Some gs) j v"
  using v
proof (induction "map Some gs" j v rule: scan.induct)
  case (1 j v)
  show ?case
  proof (cases "j < length gs")
    case False
    then show ?thesis
      by (subst scan_rounded.simps, subst scan.simps) simp
  next
    case True
    let ?t = "totalTickets (gs ! j)"
    have t: "?t \<in> \<nat>"
      using ints True by simp
    then have t0: "0 \<le> ?t" by (rule Nats_nonneg)
    show ?thesis
    proof (cases "v - ?t \<le> 0")
      case neg: True
      then have "fl (v - ?t) \<le> 0"
        using fl_sign by blast
      with neg True show ?thesis
        by (subst scan_rounded.simps, subst scan.simps) simp
    next
      case pos: False
      have le: "v - ?t \<le> r"
        using "1.prems"(1) t0 by simp
      have "r - (v - ?t) = (r - v) + ?t" by simp
      moreover have "?t \<in> \<int>"
        using t by (auto elim: Nats_cases)
      ultimately have int: "r - (v - ?t) \<in> \<int>"
        using "1.prems"(2) by (simp only: Ints_add)
      have "double_repr (v - ?t)"
        using r(1) _ le r(2) int by (rule double_repr_running) (use pos in simp)
      then have ex: "fl (v - ?t) = v - ?t"
        using fl_exact by blast
      have "scan_rounded fl (map Some gs) (Suc j) (v - ?t) = scan (map Some gs) (Suc j) (v - ?t)"
        using True pos le int by (intro "1.hyps") simp_all
      then have l: "scan_rounded fl (map Some gs) j v = scan (map Some gs) (Suc j) (v - ?t)"
        using True pos ex by (subst scan_rounded.simps) simp
      have "scan (map Some gs) j v = scan (map Some gs) (Suc j) (v - ?t)"
        using True pos by (subst scan.simps) simp
      with l show ?thesis by simp
    qed
  qed
qed

lemma double_repr_half: "double_repr (1 / 2)"
  unfolding double_repr_def by (intro exI [of _ 1] exI [of _ "- 1"]) simp

lemma double_repr_five_halves: "double_repr (5 / 2)"
  unfolding double_repr_def by (intro exI [of _ 5] exI [of _ "- 1"]) simp

lemma double_repr_zero: "double_repr 0"
  unfolding double_repr_def by (intro exI [of _ 0] exI [of _ 0]) simp

section \<open>Rounds and the loop\<close>

lemma first_take1_drop:
  "k < length xs \<Longrightarrow> first (take 1 (drop k xs)) = xs ! k"
  by (simp add: first_def Cons_nth_drop_Suc [symmetric] split: list.splits)

lemma draw_round_Some:
  assumes "ag < length h" "w < length h" "ag \<noteq> w" "h ! ag = map Some gs" "gs \<noteq> []"
  shows "\<exists>k < length gs.
           scan (map Some gs) 0 (rnd i * sum_list (map totalTickets gs)) = Some k \<and>
           draw_round rnd ag w i h =
             Some (h[ag := map Some (take k gs @ drop (Suc k) gs), w := h ! w @ [Some (gs ! k)]])"
proof -
  obtain k where k: "scan (map Some gs) 0 (rnd i * sum_list (map totalTickets gs)) = Some k"
    using scan_total by blast
  with assms(5) have kl: "k < length gs"
    using scan_bound [of "map Some gs"] by simp
  have win: "first (take 1 (drop k (map Some gs))) = Some (gs ! k)"
    using kl first_take1_drop [of k "map Some gs"] by simp
  have rest: "take k (map Some gs) @ drop (Suc k) (map Some gs) =
      map Some (take k gs @ drop (Suc k) gs)"
    by (simp add: take_map drop_map)
  have "draw_round rnd ag w i h =
          Some (h[ag := map Some (take k gs @ drop (Suc k) gs), w := h ! w @ [Some (gs ! k)]])"
    using assms(1-4) k
    by (simp add: draw_round_def reduce_tickets_Some splice1_def win rest
        del: map_append One_nat_def)
  with k kl show ?thesis by blast
qed

lemma select_loop_char:
  assumes "ag < length h" "w < length h" "ag \<noteq> w" "h ! ag = map Some gs"
  shows "\<exists>ws rest. select_loop rnd cnt ag w i h =
             Some (h[ag := map Some rest, w := h ! w @ map Some ws]) \<and>
           length ws = min (nat (cnt - int i)) (length gs) \<and>
           mset ws + mset rest = mset gs"
  using assms
proof (induction rnd cnt ag w i h arbitrary: gs rule: select_loop.induct)
  case (1 rnd cnt ag w i h)
  show ?case
  proof (cases "int i < cnt \<and> gs \<noteq> []")
    case False
    have "select_loop rnd cnt ag w i h = Some h"
      using False "1.prems" by (subst select_loop.simps) auto
    moreover have "h[ag := map Some gs, w := h ! w @ map Some []] = h"
      using "1.prems"(4) [symmetric] by simp
    moreover have "length ([]::Guide list) = min (nat (cnt - int i)) (length gs)"
      using False by auto
    ultimately show ?thesis
      by (intro exI [of _ "[]"] exI [of _ gs]) simp
  next
    case True
    then have ne: "gs \<noteq> []" and lt: "int i < cnt" by simp_all
    obtain k where k: "k < length gs"
      and rd: "draw_round rnd ag w i h =
        Some (h[ag := map Some (take k gs @ drop (Suc k) gs), w := h ! w @ [Some (gs ! k)]])"
      using draw_round_Some [OF "1.prems" ne] by blast
    let ?gs' = "take k gs @ drop (Suc k) gs"
    let ?h' = "h[ag := map Some ?gs', w := h ! w @ [Some (gs ! k)]]"
    have cond: "int i < cnt \<and> 0 < length (h ! ag)"
      using True "1.prems" by simp
    have h'ag: "?h' ! ag = map Some ?gs'" and h'w: "?h' ! w = h ! w @ [Some (gs ! k)]"
      using "1.prems" by simp_all
    obtain ws rest where rec: "select_loop rnd cnt ag w (Suc i) ?h' =
          Some (?h'[ag := map Some rest, w := ?h' ! w @ map Some ws])"
        and len: "length ws = min (nat (cnt - int (Suc i))) (length ?gs')"
        and ms: "mset ws + mset rest = mset ?gs'"
      using "1.IH" [OF cond rd _ _ _ h'ag] "1.prems" by auto
    have "select_loop rnd cnt ag w i h = Some (?h'[ag := map Some rest, w := ?h' ! w @ map Some ws])"
      using cond rd rec by (subst select_loop.simps) simp
    moreover have "?h'[ag := map Some rest, w := ?h' ! w @ map Some ws] =
        h[ag := map Some rest, w := h ! w @ map Some (gs ! k # ws)]"
      using "1.prems" by (simp add: list_update_swap [of ag w])
    moreover have "length (gs ! k # ws) = min (nat (cnt - int i)) (length gs)"
      using len k lt by auto
    moreover have "mset (gs ! k # ws) + mset rest = mset gs"
    proof -
      have "mset gs = mset (take k gs @ gs ! k # drop (Suc k) gs)"
        using k by (simp add: id_take_nth_drop [symmetric])
      then show ?thesis using ms by simp
    qed
    ultimately show ?thesis by metis
  qed
qed

lemma weightedRandomSelection_char:
  assumes "guides < length h" "h ! guides = map Some gs"
  shows "\<exists>ws rest. weightedRandomSelection h guides cnt rnd =
             Some (h @ [map Some rest, map Some ws], Suc (length h)) \<and>
           length ws = min (nat cnt) (length gs) \<and>
           mset ws + mset rest = mset gs"
proof -
  let ?h2 = "h @ [map Some gs, []]"
  obtain ws rest where run: "select_loop rnd cnt (length h) (Suc (length h)) 0 ?h2 =
        Some (?h2[length h := map Some rest, Suc (length h) := ?h2 ! Suc (length h) @ map Some ws])"
      and len: "length ws = min (nat (cnt - int 0)) (length gs)"
      and ms: "mset ws + mset rest = mset gs"
    using select_loop_char [of "length h" ?h2 "Suc (length h)" gs rnd cnt 0]
    by (auto simp: nth_append)
  have "?h2[length h := map Some rest, Suc (length h) := ?h2 ! Suc (length h) @ map Some ws] =
      h @ [map Some rest, map Some ws]"
    by (simp add: list_update_append nth_append)
  with run have "weightedRandomSelection h guides cnt rnd =
      Some (h @ [map Some rest, map Some ws], Suc (length h))"
    using assms by (simp add: weightedRandomSelection_def alloc_def)
  with len ms show ?thesis by auto
qed

section \<open>Two runs side by side\<close>

lemma draw_round_unfold:
  "draw_round rnd ag w i h =
     (case reduce_tickets 0 (h ! ag) of
        None \<Rightarrow> None
      | Some t \<Rightarrow>
          (case scan (h ! ag) 0 (rnd i * t) of
             None \<Rightarrow> None
           | Some k \<Rightarrow>
               Some (h[ag := take k (h ! ag) @ drop (Suc k) (h ! ag),
                       w := h[ag := take k (h ! ag) @ drop (Suc k) (h ! ag)] ! w
                              @ [first (take 1 (drop k (h ! ag)))]])))"
  by (simp add: draw_round_def splice1_def Let_def split: option.splits)

lemma draw_round_sim:
  assumes "ag1 < length h1" "w1 < length h1" "ag1 \<noteq> w1"
    and "ag2 < length h2" "w2 < length h2" "ag2 \<noteq> w2"
    and "h1 ! ag1 = h2 ! ag2" "h1 ! w1 = h2 ! w2" "rnd1 i = rnd2 i" "h1 ! ag1 \<noteq> []"
  shows "rel_option (\<lambda>a b. length a = length h1 \<and> length b = length h2 \<and>
            a ! ag1 = b ! ag2 \<and> a ! w1 = b ! w2 \<and> Suc (length (a ! ag1)) = length (h1 ! ag1))
          (draw_round rnd1 ag1 w1 i h1) (draw_round rnd2 ag2 w2 i h2)"
proof (cases "reduce_tickets 0 (h1 ! ag1)")
  case None
  with assms(7) show ?thesis by (simp add: draw_round_unfold)
next
  case (Some t)
  show ?thesis
  proof (cases "scan (h1 ! ag1) 0 (rnd1 i * t)")
    case None
    with Some assms(7,9) show ?thesis by (simp add: draw_round_unfold)
  next
    case (Some k)
    with assms(10) have "k < length (h1 ! ag1)"
      using scan_bound by blast
    with Some \<open>reduce_tickets 0 (h1 ! ag1) = Some t\<close> assms show ?thesis
      by (simp add: draw_round_unfold)
  qed
qed

lemma select_loop_sim:
  assumes "ag1 < length h1" "w1 < length h1" "ag1 \<noteq> w1"
    and "ag2 < length h2" "w2 < length h2" "ag2 \<noteq> w2"
    and "h1 ! ag1 = h2 ! ag2" "h1 ! w1 = h2 ! w2"
    and "\<forall>k. i \<le> k \<and> k < i + length (h1 ! ag1) \<and> int k < cnt \<longrightarrow> rnd1 k = rnd2 k"
  shows "rel_option (\<lambda>a b. a ! w1 = b ! w2)
          (select_loop rnd1 cnt ag1 w1 i h1) (select_loop rnd2 cnt ag2 w2 i h2)"
  using assms
proof (induction rnd1 cnt ag1 w1 i h1 arbitrary: h2 rule: select_loop.induct)
  case (1 rnd1 cnt ag1 w1 i h1)
  show ?case
  proof (cases "int i < cnt \<and> 0 < length (h1 ! ag1)")
    case False
    then have "select_loop rnd1 cnt ag1 w1 i h1 = Some h1"
      by (subst select_loop.simps) auto
    moreover from False "1.prems"(7) have "select_loop rnd2 cnt ag2 w2 i h2 = Some h2"
      by (subst select_loop.simps) auto
    ultimately show ?thesis
      using "1.prems"(8) by simp
  next
    case True
    then have ri: "rnd1 i = rnd2 i" and ne: "h1 ! ag1 \<noteq> []"
      using "1.prems"(9) by auto
    have cond2: "int i < cnt \<and> 0 < length (h2 ! ag2)"
      using True "1.prems"(7) by simp
    have sim: "rel_option (\<lambda>a b. length a = length h1 \<and> length b = length h2 \<and>
            a ! ag1 = b ! ag2 \<and> a ! w1 = b ! w2 \<and> Suc (length (a ! ag1)) = length (h1 ! ag1))
          (draw_round rnd1 ag1 w1 i h1) (draw_round rnd2 ag2 w2 i h2)"
      using "1.prems"(1-8) ri ne by (intro draw_round_sim) assumption+
    show ?thesis
    proof (cases "draw_round rnd1 ag1 w1 i h1")
      case None
      with sim have "draw_round rnd2 ag2 w2 i h2 = None"
        by (cases "draw_round rnd2 ag2 w2 i h2") auto
      with cond2 have "select_loop rnd2 cnt ag2 w2 i h2 = None"
        by (subst select_loop.simps) simp
      moreover from None True have "select_loop rnd1 cnt ag1 w1 i h1 = None"
        by (subst select_loop.simps) simp
      ultimately show ?thesis by simp
    next
      case (Some a)
      with sim obtain b where b: "draw_round rnd2 ag2 w2 i h2 = Some b"
        and rel: "length a = length h1" "length b = length h2" "a ! ag1 = b ! ag2"
          "a ! w1 = b ! w2" "Suc (length (a ! ag1)) = length (h1 ! ag1)"
        by (cases "draw_round rnd2 ag2 w2 i h2") auto
      have agree: "\<forall>k. Suc i \<le> k \<and> k < Suc i + length (a ! ag1) \<and> int k < cnt \<longrightarrow> rnd1 k = rnd2 k"
        using "1.prems"(9) rel(5) by auto
      have "rel_option (\<lambda>a b. a ! w1 = b ! w2)
          (select_loop rnd1 cnt ag1 w1 (Suc i) a) (select_loop rnd2 cnt ag2 w2 (Suc i) b)"
        using "1.IH" [OF True Some, of b] "1.prems"(1-6) rel agree by simp
      moreover from Some True have "select_loop rnd1 cnt ag1 w1 i h1 =
          select_loop rnd1 cnt ag1 w1 (Suc i) a"
        by (subst select_loop.simps) simp
      moreover from b cond2 have "select_loop rnd2 cnt ag2 w2 i h2 =
          select_loop rnd2 cnt ag2 w2 (Suc i) b"
        by (subst select_loop.simps) simp
      ultimately show ?thesis by simp
    qed
  qed
qed

lemma ns_round_eq: "ns_round rnd w ag i h = draw_round rnd ag w i h"
  by (simp add: ns_round_def draw_round_def)

lemma ns_loop_eq: "ns_loop rnd cnt w ag i h = select_loop rnd cnt ag w i h"
proof (induction rnd cnt ag w i h rule: select_loop.induct)
  case (1 rnd cnt ag w i h)
  show ?case
  proof (cases "int i < cnt \<and> 0 < length (h ! ag)")
    case False
    then have "ns_loop rnd cnt w ag i h = Some h"
      by (subst ns_loop.simps) auto
    moreover from False have "select_loop rnd cnt ag w i h = Some h"
      by (subst select_loop.simps) auto
    ultimately show ?thesis by simp
  next
    case True
    show ?thesis
    proof (cases "draw_round rnd ag w i h")
      case None
      with True have "ns_loop rnd cnt w ag i h = None"
        by (subst ns_loop.simps) (simp add: ns_round_eq)
      moreover from None True have "select_loop rnd cnt ag w i h = None"
        by (subst select_loop.simps) simp
      ultimately show ?thesis by simp
    next
      case (Some h')
      with True have "ns_loop rnd cnt w ag i h = ns_loop rnd cnt w ag (Suc i) h'"
        by (subst ns_loop.simps) (simp add: ns_round_eq)
      moreover from Some True have "select_loop rnd cnt ag w i h =
          select_loop rnd cnt ag w (Suc i) h'"
        by (subst select_loop.simps) simp
      ultimately show ?thesis
        using "1.IH" [OF True Some] by simp
    qed
  qed
qed

lemma weightedRandomSelection_unfold:
  "weightedRandomSelection h guides cnt rnd =
     map_option (\<lambda>h3. (h3, Suc (length h)))
       (select_loop rnd cnt (length h) (Suc (length h)) 0 (h @ [h ! guides, []]))"
  by (simp add: weightedRandomSelection_def alloc_def split: option.splits)

lemma nameScrolling_winners_unfold:
  "guides < length h \<Longrightarrow> nameScrolling_winners h guides cnt rnd =
     map_option (\<lambda>h3. (h3, length h))
       (select_loop rnd cnt (Suc (length h)) (length h) 0 (h @ [[], h ! guides]))"
  by (simp add: nameScrolling_winners_def alloc_def ns_loop_eq nth_append split: option.splits)

lemma winner_list_rel:
  "rel_option (\<lambda>a b. a ! w1 = b ! w2) x y \<Longrightarrow>
   winner_list (map_option (\<lambda>a. (a, w1)) x) = winner_list (map_option (\<lambda>b. (b, w2)) y)"
  by (cases x; cases y) (simp_all add: winner_list_def)


section \<open>The scenarios of the specification\<close>

text \<open>
  A single candidate and a count of 3: the pool is exhausted after one round. The
  candidates A, B, C with a constant draw of one half: B wins the first round (the draw
  2 of 4 ends the second sub-interval), C the second (the draw 1.5 of 3).
\<close>

lemma single_candidate_scenario:
  "winner_list (weightedRandomSelection [[Some (candidate ''A'' 5)]] 0 3 (\<lambda>_. 1 / 2)) =
     Some [Some (candidate ''A'' 5)]"
  by code_simp

lemma three_candidates_scenario:
  "winner_list (weightedRandomSelection [[Some guideA, Some guideB, Some guideC]] 0 2
     (\<lambda>_. 1 / 2)) = Some [Some guideB, Some guideC]"
  by code_simp

lemma undefined_slot_throws:
  "weightedRandomSelection [[Some guideA, None]] 0 1 (\<lambda>_. 1 / 2) = None"
  by code_simp

section \<open>Properties of the selection\<close>

text \<open>
  C1. The winner list has exactly \<open>min(count, pool size)\<close> elements, for every pool,
  every count (a negative count behaves as 0) and every sequence of draws, and the
  call returns without an error. With a count above the pool size this is the pool size;
  with an empty pool or a count of 0 it is 0.
\<close>

theorem winners_length:
  assumes "guides < length h" "h ! guides = map Some gs"
  shows "\<exists>ws. winner_list (weightedRandomSelection h guides cnt rnd) = Some ws \<and>
           length ws = min (nat cnt) (length gs)"
proof -
  obtain ws rest where "weightedRandomSelection h guides cnt rnd =
        Some (h @ [map Some rest, map Some ws], Suc (length h))"
      and "length ws = min (nat cnt) (length gs)"
    using weightedRandomSelection_char [OF assms] by blast
  then show ?thesis
    by (simp add: winner_list_def nth_append)
qed

theorem winners_length_witness:
  "(0::nat) < length [[Some guideA, Some guideB, Some guideC]] \<and>
   [[Some guideA, Some guideB, Some guideC]] ! 0 = map Some [guideA, guideB, guideC] \<and>
   (\<exists>ws. winner_list (weightedRandomSelection [[Some guideA, Some guideB, Some guideC]] 0 5
             (\<lambda>_. 1 / 2)) = Some ws \<and> length ws = 3)"
  using winners_length [of 0 "[[Some guideA, Some guideB, Some guideC]]"
      "[guideA, guideB, guideC]" 5 "\<lambda>_. 1 / 2"]
  by (simp add: eval_nat_numeral)

text \<open>
  C2. Every winner is an entry of the input list, and no entry of the input list is
  drawn twice: the winners form a sub-multiset of the input. Hence a candidate that
  occurs once in the input occurs at most once among the winners, and the winners of
  an input without repetitions are pairwise distinct. No slot of the winner list is
  \<open>undefined\<close>.
\<close>

theorem winners_distinct_subset:
  assumes "guides < length h" "h ! guides = map Some gs"
  shows "\<exists>ws. winner_list (weightedRandomSelection h guides cnt rnd) = Some (map Some ws) \<and>
           mset ws \<subseteq># mset gs \<and> set ws \<subseteq> set gs \<and> (distinct gs \<longrightarrow> distinct ws)"
proof -
  obtain ws rest where run: "weightedRandomSelection h guides cnt rnd =
        Some (h @ [map Some rest, map Some ws], Suc (length h))"
      and ms: "mset ws + mset rest = mset gs"
    using weightedRandomSelection_char [OF assms] by blast
  have sub: "mset ws \<subseteq># mset gs"
    using ms by (metis mset_subset_eq_add_left)
  then have "set ws \<subseteq> set gs"
    using set_mset_mono by fastforce
  moreover have "distinct ws" if "distinct gs"
  proof -
    have "count (mset ws) a \<le> 1" for a
    proof -
      have "count (mset ws) a \<le> count (mset gs) a"
        using sub by (rule mset_subset_eq_count)
      also have "\<dots> \<le> 1"
        using that by (simp add: distinct_count_atmost_1)
      finally show ?thesis .
    qed
    then show ?thesis
      by (metis count_mset_0_iff distinct_count_atmost_1 le_antisym
          less_one not_less)
  qed
  moreover have "winner_list (weightedRandomSelection h guides cnt rnd) = Some (map Some ws)"
    using run by (simp add: winner_list_def nth_append)
  ultimately show ?thesis
    using sub by blast
qed

theorem winners_distinct_subset_witness:
  "(0::nat) < length [[Some guideA, Some guideB, Some guideC]] \<and>
   [[Some guideA, Some guideB, Some guideC]] ! 0 = map Some [guideA, guideB, guideC] \<and>
   distinct [guideA, guideB, guideC] \<and>
   (\<exists>ws. winner_list (weightedRandomSelection [[Some guideA, Some guideB, Some guideC]] 0 2
             (\<lambda>_. 1 / 2)) = Some (map Some ws) \<and>
          mset ws \<subseteq># mset [guideA, guideB, guideC] \<and>
          set ws \<subseteq> set [guideA, guideB, guideC] \<and> distinct ws)"
proof -
  have d: "distinct [guideA, guideB, guideC]"
    by (simp add: guideA_def guideB_def guideC_def candidate_def)
  show ?thesis
    using d winners_distinct_subset [of 0 "[[Some guideA, Some guideB, Some guideC]]"
        "[guideA, guideB, guideC]" 2 "\<lambda>_. 1 / 2"]
    by simp
qed

text \<open>
  C3. The weights are those of the data model, non-negative integers, with a total of
  at most \<open>2^53\<close>; the draw \<open>r\<close> is a double in \<open>[0, totalWeight)\<close>. Then the sum the
  code computes is the exact total, the scan in double arithmetic returns what the exact
  scan returns, and it selects index \<open>i\<close> exactly when \<open>r\<close> lies in the \<open>i\<close>-th
  sub-interval of the partition. Exactly one sub-interval contains \<open>r\<close>, and the end
  points of the \<open>i\<close>-th one are \<open>totalTickets\<close> of candidate \<open>i\<close> apart, so the draws
  that select candidate \<open>i\<close> fill an interval whose length is the candidate's weight.
  For a draw that is not one of the boundary points (the sums of the first \<open>k\<close> weights)
  the choice of end points is immaterial: the selected \<open>i\<close> is the one with
  \<open>prefix_weight gs i \<le> r < prefix_weight gs (Suc i)\<close>.
\<close>

theorem scan_selects_subinterval:
  assumes ints: "\<forall>g \<in> set gs. totalTickets g \<in> \<nat>"
    and total: "reduce_tickets 0 (map Some gs) = Some totalWeight" "totalWeight \<le> 2 ^ 53"
    and r: "0 \<le> r" "r < totalWeight" "double_repr r"
    and fl: "\<forall>x. x \<le> 0 \<longrightarrow> fl x \<le> 0" "\<forall>x. double_repr x \<longrightarrow> fl x = x"
  shows "reduce_rounded fl 0 (map Some gs) = Some totalWeight \<and>
         scan_rounded fl (map Some gs) 0 r = scan (map Some gs) 0 r \<and>
         (scan_rounded fl (map Some gs) 0 r = Some i \<longleftrightarrow> in_subinterval gs i r) \<and>
         (\<exists>!k. in_subinterval gs k r) \<and>
         (i < length gs \<longrightarrow>
            prefix_weight gs (Suc i) - prefix_weight gs i = totalTickets (gs ! i)) \<and>
         ((\<forall>k \<le> length gs. r \<noteq> prefix_weight gs k) \<longrightarrow>
            (scan_rounded fl (map Some gs) 0 r = Some i \<longleftrightarrow>
               i < length gs \<and> prefix_weight gs i \<le> r \<and> r < prefix_weight gs (Suc i)))"
proof -
  have tw: "totalWeight = sum_list (map totalTickets gs)"
    using total(1) by (simp add: reduce_tickets_Some)
  have nonneg: "\<forall>g \<in> set gs. 0 \<le> totalTickets g"
    using ints Nats_nonneg by blast
  have sum: "reduce_rounded fl 0 (map Some gs) = Some totalWeight"
    using reduce_rounded_exact [OF fl(2) ints, of 0] total by (simp add: tw)
  have same: "scan_rounded fl (map Some gs) 0 r = scan (map Some gs) 0 r"
    using fl ints r(3) by (rule scan_rounded_exact) (use r(2) total(2) in simp_all)
  have eq: "scan (map Some gs) 0 r = Some k \<longleftrightarrow> in_subinterval gs k r" for k
    using nonneg r(1) r(2) [unfolded tw] by (rule scan_subinterval)
  obtain k0 where "scan (map Some gs) 0 r = Some k0"
    using scan_total by blast
  then have uniq: "\<exists>!k. in_subinterval gs k r"
    using eq by (metis option.inject)
  have open_form: "in_subinterval gs i r \<longleftrightarrow>
      i < length gs \<and> prefix_weight gs i \<le> r \<and> r < prefix_weight gs (Suc i)"
    if off: "\<forall>k \<le> length gs. r \<noteq> prefix_weight gs k"
  proof (cases "i < length gs")
    case False
    then show ?thesis by (simp add: in_subinterval_def)
  next
    case True
    with off have "r \<noteq> prefix_weight gs i" "r \<noteq> prefix_weight gs (Suc i)"
      by simp_all
    with True r(1) show ?thesis
      by (cases i) (auto simp: in_subinterval_def)
  qed
  show ?thesis
    using sum same eq uniq open_form by (simp add: prefix_weight_Suc)
qed

theorem scan_selects_subinterval_witness:
  "totalTickets guideA \<in> \<nat> \<and> totalTickets guideB \<in> \<nat> \<and> totalTickets guideC \<in> \<nat> \<and>
   reduce_tickets 0 (map Some [guideA, guideB, guideC]) = Some 4 \<and> (4::real) \<le> 2 ^ 53 \<and>
   (0::real) \<le> 5 / 2 \<and> (5 / 2::real) < 4 \<and> double_repr (5 / 2) \<and>
   reduce_rounded (\<lambda>x. x) 0 (map Some [guideA, guideB, guideC]) = Some 4 \<and>
   scan_rounded (\<lambda>x. x) (map Some [guideA, guideB, guideC]) 0 (5 / 2) = Some 2 \<and>
   scan (map Some [guideA, guideB, guideC]) 0 (5 / 2) = Some 2 \<and>
   in_subinterval [guideA, guideB, guideC] 2 (5 / 2) \<and>
   prefix_weight [guideA, guideB, guideC] (Suc 2) - prefix_weight [guideA, guideB, guideC] 2 =
     totalTickets ([guideA, guideB, guideC] ! 2)"
proof -
  have ints: "\<forall>g \<in> set [guideA, guideB, guideC]. totalTickets g \<in> \<nat>"
    by (simp add: guideA_def guideB_def guideC_def candidate_def)
  have tw: "reduce_tickets 0 (map Some [guideA, guideB, guideC]) = Some 4"
    by (simp add: guideA_def guideB_def guideC_def candidate_def)
  have sub: "in_subinterval [guideA, guideB, guideC] 2 (5 / 2)"
    by (simp add: in_subinterval_def prefix_weight_def guideA_def guideB_def guideC_def
        candidate_def eval_nat_numeral)
  show ?thesis
    using scan_selects_subinterval [OF ints tw, of "5 / 2" "\<lambda>x. x" 2]
      ints tw sub double_repr_five_halves
    by auto
qed

text \<open>
  The end points in the code: the test is \<open>random <= 0\<close>, so a draw that equals the sum
  of the first weights selects the candidate below the boundary. With the weights 1, 1
  the draw 1 selects index 0, and index 1 is selected by the draws in \<open>(1, 2)\<close>.
\<close>

lemma boundary_selects_lower_index:
  "scan (map Some [guideA, guideB]) 0 1 = Some 0 \<and>
   scan (map Some [guideA, guideB]) 0 (3 / 2) = Some 1"
  by code_simp

text \<open>
  C4 as stated: with a positive total weight and a draw \<open>r\<close> in \<open>[0, totalWeight)\<close> the
  selected candidate has a positive weight. It fails at the draw \<open>r = 0\<close> (which
  \<open>Math.random()\<close> may return) when the first candidate of the pool has weight 0: the
  first running value is \<open>0 - 0\<close>, which passes the test \<open>\<le> 0\<close>.
\<close>

theorem zero_weight_selected_at_zero:
  "reduce_tickets 0 (map Some [guideZ, guideA]) = Some 1 \<and>
   scan (map Some [guideZ, guideA]) 0 0 = Some 0 \<and>
   totalTickets ([guideZ, guideA] ! 0) = 0 \<and>
   winner_list (weightedRandomSelection [[Some guideZ, Some guideA]] 0 1 (\<lambda>_. 0)) =
     Some [Some guideZ]"
proof -
  have "reduce_tickets 0 (map Some [guideZ, guideA]) = Some 1"
    by (simp add: guideZ_def guideA_def candidate_def)
  moreover have "scan (map Some [guideZ, guideA]) 0 0 = Some 0"
    by code_simp
  moreover have "totalTickets ([guideZ, guideA] ! 0) = 0"
    by (simp add: guideZ_def candidate_def)
  moreover have "winner_list (weightedRandomSelection [[Some guideZ, Some guideA]] 0 1
      (\<lambda>_. 0)) = Some [Some guideZ]"
    by code_simp
  ultimately show ?thesis by simp
qed

text \<open>
  C4, amended: the weights are non-negative integers with a total of at most \<open>2^53\<close>
  and the draw \<open>r\<close> is a double in \<open>[0, totalWeight)\<close>. Unless \<open>r\<close> is 0 and the first
  candidate of the pool has weight 0, the scan, in double as in exact arithmetic,
  selects a candidate of the pool whose weight is strictly positive. So a candidate of
  weight 0 is selected, while a candidate of positive weight remains, only when it is
  the first of the pool and the draw is exactly 0.
\<close>

theorem selected_weight_positive:
  assumes ints: "\<forall>g \<in> set gs. totalTickets g \<in> \<nat>"
    and total: "reduce_tickets 0 (map Some gs) = Some totalWeight" "totalWeight \<le> 2 ^ 53"
    and r: "0 \<le> r" "r < totalWeight" "double_repr r"
    and first: "0 < r \<or> 0 < totalTickets (gs ! 0)"
    and fl: "\<forall>x. x \<le> 0 \<longrightarrow> fl x \<le> 0" "\<forall>x. double_repr x \<longrightarrow> fl x = x"
  shows "\<exists>i < length gs. scan_rounded fl (map Some gs) 0 r = Some i \<and>
           scan (map Some gs) 0 r = Some i \<and> 0 < totalTickets (gs ! i)"
proof -
  have tw: "totalWeight = sum_list (map totalTickets gs)"
    using total(1) by (simp add: reduce_tickets_Some)
  have same: "scan_rounded fl (map Some gs) 0 r = scan (map Some gs) 0 r"
    using fl ints r(3) by (rule scan_rounded_exact) (use r(2) total(2) in simp_all)
  show ?thesis
    using scan_positive_weight [OF r(1) r(2) [unfolded tw] first] same by simp
qed


theorem selected_weight_positive_witness:
  "totalTickets guideA \<in> \<nat> \<and> totalTickets guideZ \<in> \<nat> \<and>
   reduce_tickets 0 (map Some [guideZ, guideA]) = Some 1 \<and> (1::real) \<le> 2 ^ 53 \<and>
   (0::real) < 1 / 2 \<and> (1 / 2::real) < 1 \<and> double_repr (1 / 2) \<and>
   (\<exists>i < length [guideZ, guideA].
      scan_rounded (\<lambda>x. x) (map Some [guideZ, guideA]) 0 (1 / 2) = Some i \<and>
      scan (map Some [guideZ, guideA]) 0 (1 / 2) = Some i \<and>
      0 < totalTickets ([guideZ, guideA] ! i)) \<and>
   reduce_tickets 0 (map Some [guideA, guideZ]) = Some 1 \<and> double_repr 0 \<and>
   0 < totalTickets ([guideA, guideZ] ! 0) \<and>
   (\<exists>i < length [guideA, guideZ].
      scan_rounded (\<lambda>x. x) (map Some [guideA, guideZ]) 0 0 = Some i \<and>
      scan (map Some [guideA, guideZ]) 0 0 = Some i \<and>
      0 < totalTickets ([guideA, guideZ] ! i))"
proof -
  have ints: "\<forall>g \<in> set [guideZ, guideA]. totalTickets g \<in> \<nat>"
      "\<forall>g \<in> set [guideA, guideZ]. totalTickets g \<in> \<nat>"
    by (simp_all add: guideA_def guideZ_def candidate_def)
  have tw: "reduce_tickets 0 (map Some [guideZ, guideA]) = Some 1"
      "reduce_tickets 0 (map Some [guideA, guideZ]) = Some 1"
    by (simp_all add: guideA_def guideZ_def candidate_def)
  have first: "0 < totalTickets ([guideA, guideZ] ! 0)"
    by (simp add: guideA_def candidate_def)
  show ?thesis
    using selected_weight_positive [OF ints(1) tw(1), of "1 / 2" "\<lambda>x. x"]
      selected_weight_positive [OF ints(2) tw(2), of 0 "\<lambda>x. x"]
      ints tw first double_repr_half double_repr_zero
    by auto
qed

text \<open>
  C5. On a non-empty pool whose weights are all 0 the total weight is 0, the draw is
  \<open>0\<close> whatever \<open>Math.random()\<close> returns, and the round selects index 0; a call with
  count 1 returns, without an error, the list that holds just the first candidate of the
  pool.
\<close>

theorem zero_pool_selects_first:
  assumes "guides < length h" "h ! guides = map Some gs"
    and "gs \<noteq> []" "\<forall>g \<in> set gs. totalTickets g = 0"
  shows "reduce_tickets 0 (map Some gs) = Some 0 \<and>
         scan (map Some gs) 0 (u * 0) = Some 0 \<and>
         winner_list (weightedRandomSelection h guides 1 rnd) = Some [Some (hd gs)]"
proof -
  let ?n = "length h"
  let ?h2 = "h @ [map Some gs, []]"
  have total: "sum_list (map totalTickets gs) = 0"
    using assms(4) by (induction gs) auto
  have sc: "scan (map Some gs) 0 (x * sum_list (map totalTickets gs)) = Some 0" for x
    using assms(3,4) by (rule scan_zero_pool)
  obtain k where k: "scan (map Some gs) 0 (rnd 0 * sum_list (map totalTickets gs)) = Some k"
    and rd: "draw_round rnd ?n (Suc ?n) 0 ?h2 =
      Some (?h2[?n := map Some (take k gs @ drop (Suc k) gs),
                Suc ?n := ?h2 ! Suc ?n @ [Some (gs ! k)]])"
    using draw_round_Some [of ?n ?h2 "Suc ?n" gs rnd 0] assms(3)
    by (auto simp: nth_append)
  from k sc [of "rnd 0"] have k0: "k = 0" by simp
  let ?h3 = "?h2[?n := map Some (drop (Suc 0) gs), Suc ?n := [Some (gs ! 0)]]"
  have rd0: "draw_round rnd ?n (Suc ?n) 0 ?h2 = Some ?h3"
    using rd k0 by (simp add: nth_append)
  have stop: "select_loop rnd 1 ?n (Suc ?n) (Suc 0) ?h3 = Some ?h3"
    by (subst select_loop.simps) simp
  have "select_loop rnd 1 ?n (Suc ?n) 0 ?h2 = Some ?h3"
    using assms(3) rd0 stop by (subst select_loop.simps) (simp add: nth_append)
  then have "winner_list (weightedRandomSelection h guides 1 rnd) = Some [Some (gs ! 0)]"
    using assms(2) by (simp add: weightedRandomSelection_unfold winner_list_def)
  moreover have "gs ! 0 = hd gs"
    using assms(3) by (simp add: hd_conv_nth)
  moreover have "scan (map Some gs) 0 (u * 0) = Some 0"
    using sc [of u] total by simp
  ultimately show ?thesis
    using total by (simp add: reduce_tickets_Some)
qed

theorem zero_pool_selects_first_witness:
  "(0::nat) < length [[Some guideZ, Some (candidate ''Y'' 0)]] \<and>
   [[Some guideZ, Some (candidate ''Y'' 0)]] ! 0 = map Some [guideZ, candidate ''Y'' 0] \<and>
   [guideZ, candidate ''Y'' 0] \<noteq> [] \<and>
   totalTickets guideZ = 0 \<and> totalTickets (candidate ''Y'' 0) = 0 \<and>
   scan (map Some [guideZ, candidate ''Y'' 0]) 0 (3 / 4 * 0) = Some 0 \<and>
   winner_list (weightedRandomSelection [[Some guideZ, Some (candidate ''Y'' 0)]] 0 1
     (\<lambda>_. 3 / 4)) = Some [Some guideZ]"
proof -
  have z: "\<forall>g \<in> set [guideZ, candidate ''Y'' 0]. totalTickets g = 0"
    by (simp add: guideZ_def candidate_def)
  show ?thesis
    using z zero_pool_selects_first [of 0 "[[Some guideZ, Some (candidate ''Y'' 0)]]"
        "[guideZ, candidate ''Y'' 0]" "3 / 4" "\<lambda>_. 3 / 4"]
    by simp
qed

text \<open>
  C6. The call works on a copy: when it returns, the caller's array holds the same
  elements in the same order as before, every other array that existed before the call
  is unchanged as well, and the returned winner array is a new array, not the input.
\<close>

theorem input_array_unchanged:
  assumes "guides < length h" "h ! guides = map Some gs"
  shows "\<exists>h' winners. weightedRandomSelection h guides cnt rnd = Some (h', winners) \<and>
           h' ! guides = h ! guides \<and> take (length h) h' = h \<and> winners \<noteq> guides"
proof -
  obtain ws rest where "weightedRandomSelection h guides cnt rnd =
        Some (h @ [map Some rest, map Some ws], Suc (length h))"
    using weightedRandomSelection_char [OF assms] by blast
  then show ?thesis
    using assms(1) by (simp add: nth_append)
qed

theorem input_array_unchanged_witness:
  "(0::nat) < length [[Some guideA, Some guideB, Some guideC]] \<and>
   [[Some guideA, Some guideB, Some guideC]] ! 0 = map Some [guideA, guideB, guideC] \<and>
   (\<exists>h' winners.
      weightedRandomSelection [[Some guideA, Some guideB, Some guideC]] 0 2 (\<lambda>_. 1 / 2) =
        Some (h', winners) \<and>
      h' ! 0 = [Some guideA, Some guideB, Some guideC] \<and>
      take 1 h' = [[Some guideA, Some guideB, Some guideC]] \<and> winners \<noteq> 0)"
  using input_array_unchanged [of 0 "[[Some guideA, Some guideB, Some guideC]]"
      "[guideA, guideB, guideC]" 2 "\<lambda>_. 1 / 2"]
  by simp

text \<open>
  C7. A round on a non-empty pool succeeds and removes exactly one element, the one at
  the selected index \<open>k\<close>: the pool is one element shorter and the survivors keep their
  order. The total weight of the pool drops by the winner's weight; so the total weight
  strictly decreases or (as always) the pool shrinks by one candidate.
\<close>

theorem round_shrinks_pool:
  assumes "availableGuides < length h" "winners < length h" "availableGuides \<noteq> winners"
    and "h ! availableGuides = map Some gs" "gs \<noteq> []"
  shows "\<exists>h' k t t'. draw_round rnd availableGuides winners i h = Some h' \<and> k < length gs \<and>
           h' ! availableGuides = map Some (take k gs @ drop (Suc k) gs) \<and>
           Suc (length (h' ! availableGuides)) = length (h ! availableGuides) \<and>
           reduce_tickets 0 (h ! availableGuides) = Some t \<and>
           reduce_tickets 0 (h' ! availableGuides) = Some t' \<and>
           t' = t - totalTickets (gs ! k) \<and>
           (t' < t \<or> Suc (length (h' ! availableGuides)) = length (h ! availableGuides))"
proof -
  obtain k where k: "k < length gs"
    and rd: "draw_round rnd availableGuides winners i h =
      Some (h[availableGuides := map Some (take k gs @ drop (Suc k) gs),
              winners := h ! winners @ [Some (gs ! k)]])"
    using draw_round_Some [OF assms] by blast
  let ?h' = "h[availableGuides := map Some (take k gs @ drop (Suc k) gs),
               winners := h ! winners @ [Some (gs ! k)]]"
  have pool: "?h' ! availableGuides = map Some (take k gs @ drop (Suc k) gs)"
    using assms(1-3) by simp
  have "gs = take k gs @ gs ! k # drop (Suc k) gs"
    using k by (rule id_take_nth_drop)
  then have "sum_list (map totalTickets gs) =
      sum_list (map totalTickets (take k gs @ gs ! k # drop (Suc k) gs))"
    by simp
  then have sum: "sum_list (map totalTickets (take k gs @ drop (Suc k) gs)) =
      sum_list (map totalTickets gs) - totalTickets (gs ! k)"
    by simp
  have len: "Suc (length (?h' ! availableGuides)) = length (h ! availableGuides)"
    using k assms(4) by (simp only: pool) simp
  have t: "reduce_tickets 0 (h ! availableGuides) = Some (sum_list (map totalTickets gs))"
    by (simp add: assms(4) reduce_tickets_Some)
  have t': "reduce_tickets 0 (?h' ! availableGuides) =
      Some (sum_list (map totalTickets gs) - totalTickets (gs ! k))"
    by (simp only: pool reduce_tickets_Some sum) simp
  show ?thesis
    using rd k pool len t t' by blast
qed

theorem round_shrinks_pool_witness:
  "(0::nat) < length [[Some guideA, Some guideB, Some guideC], []] \<and>
   (1::nat) < length [[Some guideA, Some guideB, Some guideC], []] \<and> (0::nat) \<noteq> 1 \<and>
   [[Some guideA, Some guideB, Some guideC], []] ! 0 = map Some [guideA, guideB, guideC] \<and>
   [guideA, guideB, guideC] \<noteq> [] \<and>
   (\<exists>h' k t t'.
      draw_round (\<lambda>_. 1 / 2) 0 1 0 [[Some guideA, Some guideB, Some guideC], []] = Some h' \<and>
      k < length [guideA, guideB, guideC] \<and>
      h' ! 0 = map Some (take k [guideA, guideB, guideC] @ drop (Suc k) [guideA, guideB, guideC]) \<and>
      Suc (length (h' ! 0)) = 3 \<and>
      reduce_tickets 0 [Some guideA, Some guideB, Some guideC] = Some t \<and>
      reduce_tickets 0 (h' ! 0) = Some t' \<and>
      t' = t - totalTickets ([guideA, guideB, guideC] ! k) \<and>
      (t' < t \<or> Suc (length (h' ! 0)) = 3))"
  using round_shrinks_pool [of 0 "[[Some guideA, Some guideB, Some guideC], []]" 1
      "[guideA, guideB, guideC]" "\<lambda>_. 1 / 2" 0]
  by (simp add: eval_nat_numeral)

text \<open>
  C8. The loop written out in the effect of \<open>NameScrolling\<close> and
  \<open>weightedRandomSelection\<close> compute the same winners: for every input array (also one
  with an \<open>undefined\<close> slot, on which both throw), every count and every sequence of
  draws the two winner lists are equal. The two allocate their arrays in opposite order,
  so the stores they leave differ; the lists read from them do not.
\<close>

theorem nameScrolling_same_winners:
  assumes "guides < length h"
  shows "winner_list (nameScrolling_winners h guides cnt rnd) =
         winner_list (weightedRandomSelection h guides cnt rnd)"
proof -
  let ?n = "length h"
  let ?h1 = "h @ [[], h ! guides]" and ?h2 = "h @ [h ! guides, []]"
  have "rel_option (\<lambda>a b. a ! ?n = b ! Suc ?n)
          (select_loop rnd cnt (Suc ?n) ?n 0 ?h1) (select_loop rnd cnt ?n (Suc ?n) 0 ?h2)"
    by (rule select_loop_sim) (simp_all add: nth_append)
  then show ?thesis
    using assms
    by (simp add: nameScrolling_winners_unfold weightedRandomSelection_unfold winner_list_rel)
qed

theorem nameScrolling_same_winners_witness:
  "(0::nat) < length [[Some guideA, Some guideB, Some guideC]] \<and>
   winner_list (nameScrolling_winners [[Some guideA, Some guideB, Some guideC]] 0 2
     (\<lambda>_. 1 / 2)) =
   winner_list (weightedRandomSelection [[Some guideA, Some guideB, Some guideC]] 0 2
     (\<lambda>_. 1 / 2)) \<and>
   winner_list (weightedRandomSelection [[Some guideA, Some guideB, Some guideC]] 0 2
     (\<lambda>_. 1 / 2)) = Some [Some guideB, Some guideC]"
proof -
  have run: "winner_list (weightedRandomSelection [[Some guideA, Some guideB, Some guideC]] 0 2
      (\<lambda>_. 1 / 2)) = Some [Some guideB, Some guideC]"
    by code_simp
  show ?thesis
    using run nameScrolling_same_winners [of 0 "[[Some guideA, Some guideB, Some guideC]]" 2
        "\<lambda>_. 1 / 2"]
    by simp
qed

text \<open>
  C9. The winner list is a function of the elements of the input array, the count and
  the draws alone: two runs, in whatever stores and at whatever references, on arrays
  with the same elements, with the same count and with draw sequences that agree on the
  draws a run can consume (one per round, at most \<open>min(count, pool size)\<close> of them) end
  alike, with equal winner lists or both with a TypeError.
\<close>

theorem selection_deterministic:
  assumes "g1 < length h1" "g2 < length h2" "h1 ! g1 = h2 ! g2"
    and "\<forall>i < length (h1 ! g1). int i < cnt \<longrightarrow> rnd1 i = rnd2 i"
  shows "winner_list (weightedRandomSelection h1 g1 cnt rnd1) =
         winner_list (weightedRandomSelection h2 g2 cnt rnd2)"
proof -
  let ?a = "h1 @ [h1 ! g1, []]" and ?b = "h2 @ [h2 ! g2, []]"
  have "rel_option (\<lambda>a b. a ! Suc (length h1) = b ! Suc (length h2))
          (select_loop rnd1 cnt (length h1) (Suc (length h1)) 0 ?a)
          (select_loop rnd2 cnt (length h2) (Suc (length h2)) 0 ?b)"
    using assms(3,4) by (intro select_loop_sim) (simp_all add: nth_append)
  then show ?thesis
    by (simp add: weightedRandomSelection_unfold winner_list_rel)
qed

theorem selection_deterministic_witness:
  "(0::nat) < length [[Some guideA, Some guideB, Some guideC]] \<and>
   (1::nat) < length [[], [Some guideA, Some guideB, Some guideC]] \<and>
   [[Some guideA, Some guideB, Some guideC]] ! 0 =
     [[], [Some guideA, Some guideB, Some guideC]] ! 1 \<and>
   (1 / 2 :: real) = (if (0::nat) < 2 then 1 / 2 else 0) \<and>
   (1 / 2 :: real) = (if (1::nat) < 2 then 1 / 2 else 0) \<and>
   winner_list (weightedRandomSelection [[Some guideA, Some guideB, Some guideC]] 0 2
     (\<lambda>_. 1 / 2)) =
   winner_list (weightedRandomSelection [[], [Some guideA, Some guideB, Some guideC]] 1 2
     (\<lambda>i. if i < 2 then 1 / 2 else 0))"
  using selection_deterministic [of 0 "[[Some guideA, Some guideB, Some guideC]]" 1
      "[[], [Some guideA, Some guideB, Some guideC]]" 2 "\<lambda>_. 1 / 2"
      "\<lambda>i. if i < 2 then 1 / 2 else 0"]
  by simp

text \<open>
  C10. On a non-empty pool of guides the scan ends, for every starting value, with an
  index of the pool (the initial 0 when no running value is \<open>\<le> 0\<close>), whatever the
  weights and the draw are. So in a round the \<open>splice\<close> at the selected index removes an
  element of the pool, the winner pushed to the winner array is that guide and never
  \<open>undefined\<close>, and the round does not throw.
\<close>

theorem round_winner_defined:
  assumes "availableGuides < length h" "winners < length h" "availableGuides \<noteq> winners"
    and "h ! availableGuides = map Some gs" "gs \<noteq> []"
  shows "(\<exists>k < length gs. scan (map Some gs) 0 r = Some k) \<and>
         (\<exists>totalWeight k h'.
            reduce_tickets 0 (h ! availableGuides) = Some totalWeight \<and>
            scan (h ! availableGuides) 0 (rnd i * totalWeight) = Some k \<and>
            k < length (h ! availableGuides) \<and>
            first (fst (splice1 (h ! availableGuides) k)) = Some (gs ! k) \<and>
            draw_round rnd availableGuides winners i h = Some h' \<and>
            h' ! winners = h ! winners @ [Some (gs ! k)])"
proof -
  have any: "\<exists>k < length gs. scan (map Some gs) 0 r = Some k"
    using scan_total [of gs 0 r] scan_bound [of "map Some gs" 0 r] assms(5) by auto
  obtain k where k: "k < length gs"
    and sc: "scan (map Some gs) 0 (rnd i * sum_list (map totalTickets gs)) = Some k"
    and rd: "draw_round rnd availableGuides winners i h =
      Some (h[availableGuides := map Some (take k gs @ drop (Suc k) gs),
              winners := h ! winners @ [Some (gs ! k)]])"
    using draw_round_Some [OF assms] by blast
  have "first (fst (splice1 (map Some gs) k)) = Some (gs ! k)"
    using k first_take1_drop [of k "map Some gs"] by (simp add: splice1_def)
  moreover have "reduce_tickets 0 (h ! availableGuides) = Some (sum_list (map totalTickets gs))"
    by (simp add: assms(4) reduce_tickets_Some)
  moreover have "(h[availableGuides := map Some (take k gs @ drop (Suc k) gs),
              winners := h ! winners @ [Some (gs ! k)]]) ! winners = h ! winners @ [Some (gs ! k)]"
    using assms(2) by simp
  ultimately have "\<exists>totalWeight k h'.
            reduce_tickets 0 (h ! availableGuides) = Some totalWeight \<and>
            scan (h ! availableGuides) 0 (rnd i * totalWeight) = Some k \<and>
            k < length (h ! availableGuides) \<and>
            first (fst (splice1 (h ! availableGuides) k)) = Some (gs ! k) \<and>
            draw_round rnd availableGuides winners i h = Some h' \<and>
            h' ! winners = h ! winners @ [Some (gs ! k)]"
    using k sc rd assms(4) by (metis length_map)
  with any show ?thesis by blast
qed

theorem round_winner_defined_witness:
  "(0::nat) < length [[Some guideA, Some guideB, Some guideC], []] \<and>
   (1::nat) < length [[Some guideA, Some guideB, Some guideC], []] \<and> (0::nat) \<noteq> 1 \<and>
   [[Some guideA, Some guideB, Some guideC], []] ! 0 = map Some [guideA, guideB, guideC] \<and>
   [guideA, guideB, guideC] \<noteq> [] \<and>
   (\<exists>k < length [guideA, guideB, guideC].
      scan (map Some [guideA, guideB, guideC]) 0 7 = Some k) \<and>
   (\<exists>totalWeight k h'.
      reduce_tickets 0 [Some guideA, Some guideB, Some guideC] = Some totalWeight \<and>
      scan [Some guideA, Some guideB, Some guideC] 0 (1 / 2 * totalWeight) = Some k \<and>
      k < 3 \<and>
      first (fst (splice1 [Some guideA, Some guideB, Some guideC] k)) =
        Some ([guideA, guideB, guideC] ! k) \<and>
      draw_round (\<lambda>_. 1 / 2) 0 1 0 [[Some guideA, Some guideB, Some guideC], []] = Some h' \<and>
      h' ! 1 = [Some ([guideA, guideB, guideC] ! k)])"
  using round_winner_defined [of 0 "[[Some guideA, Some guideB, Some guideC], []]" 1
      "[guideA, guideB, guideC]" 7 "\<lambda>_. 1 / 2" 0]
  by (simp add: eval_nat_numeral)

end
